theory Spec2Isabelle
  imports Main "HOL-Library.Word"
begin

section \<open>Data\<close>

text \<open>
  A Python \<open>bytes\<close> value is a list of bytes, each an integer in \<open>0..255\<close>.
  A Python \<open>str\<close> is a sequence of Unicode code points; the program uses glyphs
  outside ASCII (the arrows, the circles, the cursor marker), so a string is a list of
  code points and \<open>ascii\<close> reads an ASCII literal as one.
\<close>

type_synonym byte = "8 word"

type_synonym ustr = "nat list"

definition ascii :: "string \<Rightarrow> ustr" where
  "ascii s = map of_char s"

section \<open>TildeFramer\<close>

record tilde_framer =
  in_buf :: "byte list"
  armed :: bool

text \<open>\<open>TildeFramer.__init__\<close>: an empty buffer, disarmed.\<close>

definition framer_init :: tilde_framer where
  "framer_init = \<lparr>in_buf = [], armed = False\<rparr>"

text \<open>
  The body of the loop of \<open>TildeFramer.feed\<close> for one byte \<open>b\<close>: \<open>out\<close> is the list
  of frames emitted so far in this call, \<open>s\<close> the framer.
\<close>

definition feed_byte ::
  "byte \<Rightarrow> byte list list \<Rightarrow> tilde_framer \<Rightarrow> byte list list \<times> tilde_framer" where
  "feed_byte b out s =
     (if b = 0x7E then
        (if armed s \<and> in_buf s \<noteq> []
         then (out @ [in_buf s], s\<lparr>in_buf := [], armed := False\<rparr>)
         else (out, s\<lparr>in_buf := [], armed := True\<rparr>))
      else if armed s then (out, s\<lparr>in_buf := in_buf s @ [b]\<rparr>)
      else (out, s))"

fun feed_loop ::
  "byte list \<Rightarrow> byte list list \<Rightarrow> tilde_framer \<Rightarrow> byte list list \<times> tilde_framer" where
  "feed_loop [] out s = (out, s)"
| "feed_loop (b # chunk) out s =
     (case feed_byte b out s of (out', s') \<Rightarrow> feed_loop chunk out' s')"

text \<open>\<open>TildeFramer.feed\<close>: the frames completed within the call, and the framer after it.\<close>

definition feed :: "byte list \<Rightarrow> tilde_framer \<Rightarrow> byte list list \<times> tilde_framer" where
  "feed chunk s = feed_loop chunk [] s"

text \<open>
  Successive \<open>feed\<close> calls on the same framer, one per chunk, as \<open>SerialReader.run\<close>
  makes them: the frames of each call are delivered in order, after those of the calls
  before it.
\<close>

fun feed_chunks :: "byte list list \<Rightarrow> tilde_framer \<Rightarrow> byte list list \<times> tilde_framer" where
  "feed_chunks [] s = ([], s)"
| "feed_chunks (c # cs) s =
     (case feed c s of (fs, s') \<Rightarrow>
        (case feed_chunks cs s' of (gs, s'') \<Rightarrow> (fs @ gs, s'')))"

text \<open>The framer's invariant: a disarmed framer holds no buffered bytes.\<close>

definition framer_inv :: "tilde_framer \<Rightarrow> bool" where
  "framer_inv s = (armed s \<or> in_buf s = [])"

section \<open>LCD text\<close>

text \<open>
  \<open>LCD_CHAR_MAP\<close>: the glyph table, from byte to a one-character string. The glyphs are
  U+2191 (up arrow), U+2193 (down arrow), U+25CF (filled circle) and U+25CB (hollow
  circle). \<open>b in LCD_CHAR_MAP\<close> is \<open>LCD_CHAR_MAP b \<noteq> None\<close>.
\<close>

definition LCD_CHAR_MAP :: "byte \<rightharpoonup> ustr" where
  "LCD_CHAR_MAP = [0xA3 \<mapsto> [0x2191], 0xA4 \<mapsto> [0x2193], 0xD4 \<mapsto> [0x25CF], 0xE4 \<mapsto> [0x25CB]]"

definition PRINTABLE_MIN :: byte where
  "PRINTABLE_MIN = 32"

definition PRINTABLE_MAX :: byte where
  "PRINTABLE_MAX = 126"

text \<open>
  \<open>str.isspace\<close> on one code point: the characters that Python's \<open>str.strip()\<close> removes.
  Of the code points the program produces, only the space (32) is one.
\<close>

definition isspace :: "nat \<Rightarrow> bool" where
  "isspace c =
     ((0x09 \<le> c \<and> c \<le> 0x0D) \<or> (0x1C \<le> c \<and> c \<le> 0x20) \<or> c = 0x85 \<or> c = 0xA0
      \<or> c = 0x1680 \<or> (0x2000 \<le> c \<and> c \<le> 0x200A) \<or> c = 0x2028 \<or> c = 0x2029
      \<or> c = 0x202F \<or> c = 0x205F \<or> c = 0x3000)"

text \<open>
  \<open>str.strip()\<close>: leading whitespace is dropped, then trailing whitespace.
\<close>

definition strip :: "ustr \<Rightarrow> ustr" where
  "strip s = rev (dropWhile isspace (rev (dropWhile isspace s)))"

text \<open>
  \<open>sep.join(xs)\<close>.
\<close>

definition join :: "ustr \<Rightarrow> ustr list \<Rightarrow> ustr" where
  "join sep xs = (case xs of [] \<Rightarrow> [] | x # rest \<Rightarrow> x @ concat (map (\<lambda>y. sep @ y) rest))"

text \<open>
  \<open>MainWindow._to_text\<close>: a glyph-table byte becomes its glyph, a printable byte the
  character with its code point, and the source's third branch (\<open>b == 0x20\<close>) is kept in
  its place although the second one already covers it.
\<close>

fun to_text :: "byte list \<Rightarrow> ustr" where
  "to_text [] = []"
| "to_text (b # raw) =
     (case LCD_CHAR_MAP b of
        Some g \<Rightarrow> g @ to_text raw
      | None \<Rightarrow>
          if PRINTABLE_MIN \<le> b \<and> b \<le> PRINTABLE_MAX then unat b # to_text raw
          else if b = 0x20 then 0x20 # to_text raw
          else to_text raw)"

text \<open>
  The body of the loop of \<open>MainWindow._split_lcd_lines\<close> for one byte: \<open>lines\<close> are the
  lines completed so far, \<open>buf\<close> is the current line buffer.
\<close>

definition split_byte :: "byte \<Rightarrow> ustr list \<Rightarrow> byte list \<Rightarrow> ustr list \<times> byte list" where
  "split_byte b lines buf =
     (if b \<in> {0xC0, 0x94, 0xD4} then
        (if buf \<noteq> [] then (lines @ [strip (to_text buf)], []) else (lines, buf))
      else if (32 \<le> b \<and> b \<le> 126) \<or> LCD_CHAR_MAP b \<noteq> None then (lines, buf @ [b])
      else (lines, buf))"

fun split_loop :: "byte list \<Rightarrow> ustr list \<Rightarrow> byte list \<Rightarrow> ustr list \<times> byte list" where
  "split_loop [] lines buf = (lines, buf)"
| "split_loop (b # data) lines buf =
     (case split_byte b lines buf of (lines', buf') \<Rightarrow> split_loop data lines' buf')"

text \<open>
  \<open>MainWindow._split_lcd_lines\<close>: the scan, the flush of what remains in the buffer, and
  the final comprehension that drops every line that strips to the empty string.
\<close>

definition split_lcd_lines :: "byte list \<Rightarrow> ustr list" where
  "split_lcd_lines data =
     (case split_loop data [] [] of (lines, buf) \<Rightarrow>
        filter (\<lambda>ln. strip ln \<noteq> [])
          (if buf \<noteq> [] then lines @ [strip (to_text buf)] else lines))"

section \<open>MainWindow\<close>

text \<open>
  The serial port is pyserial's \<open>serial.Serial\<close>, an external library. The model keeps
  what \<open>_send\<close> uses of it: whether the port is open, the bytes written so far, and
  \<open>fault\<close>, the message of the exception that \<open>write\<close> raises while the port is in a
  failing condition (\<open>None\<close> when \<open>write\<close> succeeds).
\<close>

record serial_port =
  is_open :: bool
  fault :: "ustr option"
  written :: "byte list"

text \<open>
  \<open>ser.write(data)\<close>: \<open>Inl e\<close> is the raised exception, \<open>Inr\<close> the port after the write.
\<close>

definition serial_write :: "byte list \<Rightarrow> serial_port \<Rightarrow> ustr + serial_port" where
  "serial_write data p =
     (case fault p of
        Some e \<Rightarrow> Inl e
      | None \<Rightarrow> Inr (p\<lparr>written := written p @ data\<rparr>))"

text \<open>
  The fields of \<open>MainWindow\<close> that the handlers below read or assign: the port
  (\<open>Optional[serial.Serial]\<close>), the cursor index (a Python \<open>int\<close>), the stored lines, the
  blink flag, the plain text and the scroll position of the LCD view, and the lines
  appended to the log view.
\<close>

record main_window =
  ser :: "serial_port option"
  cursor_index :: int
  current_lines :: "ustr list"
  cursor_visible :: bool
  lcd_view :: ustr
  lcd_scroll :: int
  log :: "ustr list"

text \<open>
  \<open>MainWindow.__init__\<close>: no port, index 0, no lines, cursor visible, empty views.
\<close>

definition main_window_init :: main_window where
  "main_window_init =
     \<lparr>ser = None, cursor_index = 0, current_lines = [], cursor_visible = True,
      lcd_view = [], lcd_scroll = 0, log = []\<rparr>"

text \<open>
  The format \<open>f'{b:02X}'\<close>: two upper-case hexadecimal digits.
\<close>

definition hex_digit :: "nat \<Rightarrow> nat" where
  "hex_digit d = (if d < 10 then 0x30 + d else 0x41 + (d - 10))"

definition hex02X :: "byte \<Rightarrow> ustr" where
  "hex02X b = [hex_digit (unat b div 16), hex_digit (unat b mod 16)]"

text \<open>
  \<open>MainWindow._send\<close>: nothing happens without an open port; otherwise the bytes are
  written and logged, and an exception of \<open>write\<close> is caught and logged.
\<close>

definition send :: "byte list \<Rightarrow> main_window \<Rightarrow> main_window" where
  "send data w =
     (case ser w of
        None \<Rightarrow> w
      | Some p \<Rightarrow>
          if is_open p then
            (case serial_write data p of
               Inr p' \<Rightarrow>
                 w\<lparr>ser := Some p',
                   log := log w @ [ascii ''[TX] '' @ join (ascii '' '') (map hex02X data)]\<rparr>
             | Inl e \<Rightarrow> w\<lparr>log := log w @ [ascii ''[TX ERROR] '' @ e]\<rparr>)
          else w)"

text \<open>
  \<open>MainWindow._render_lcd\<close>: both early returns, the reduction of the cursor index
  modulo the number of non-blank lines, and the text with the two-character prefix
  (U+25B6 and a space on the selected line while the cursor is visible).
\<close>

definition render_lcd :: "main_window \<Rightarrow> main_window" where
  "render_lcd w =
     (if current_lines w = [] then w
      else
        let lines = filter (\<lambda>ln. strip ln \<noteq> []) (current_lines w) in
        if lines = [] then w
        else
          let ci = cursor_index w mod int (length lines);
              rendered =
                map (\<lambda>(i, line).
                       (if int i = ci \<and> cursor_visible w then [0x25B6, 0x20] else [0x20, 0x20])
                       @ line)
                    (zip [0..<length lines] lines)
          in w\<lparr>cursor_index := ci, lcd_view := join [0x0A] rendered, lcd_scroll := 0\<rparr>)"

text \<open>
  \<open>MainWindow.on_framed\<close>: the byte \<open>0x80\<close> is filtered out, the lines are stored, then
  rendered.
\<close>

definition on_framed :: "byte list \<Rightarrow> main_window \<Rightarrow> main_window" where
  "on_framed frame w =
     (let filtered = filter (\<lambda>b. b \<notin> {0x80}) frame;
          lines = split_lcd_lines filtered
      in render_lcd (w\<lparr>current_lines := lines\<rparr>))"

text \<open>
  \<open>MainWindow.toggle_cursor\<close>, \<open>MainWindow.move_up\<close> and \<open>MainWindow.move_dn\<close>.
\<close>

definition toggle_cursor :: "main_window \<Rightarrow> main_window" where
  "toggle_cursor w = render_lcd (w\<lparr>cursor_visible := \<not> cursor_visible w\<rparr>)"

definition move_up :: "main_window \<Rightarrow> main_window" where
  "move_up w =
     (if current_lines w = [] then w
      else send [0x08]
             (render_lcd
                (w\<lparr>cursor_index := (cursor_index w - 1) mod int (length (current_lines w))\<rparr>)))"

definition move_dn :: "main_window \<Rightarrow> main_window" where
  "move_dn w =
     (if current_lines w = [] then w
      else send [0x01]
             (render_lcd
                (w\<lparr>cursor_index := (cursor_index w + 1) mod int (length (current_lines w))\<rparr>)))"

text \<open>
  The states the window can be in: the initial one, and those that a handler produces
  from one. \<open>r_send\<close> covers the ESC and ENT buttons, which only call \<open>_send\<close>;
  \<open>r_port\<close> covers \<open>on_connect\<close> and \<open>on_disconnect\<close>, which only change the port, and
  \<open>r_log\<close> covers \<open>on_raw\<close>, which only appends to the log.
\<close>

inductive reachable :: "main_window \<Rightarrow> bool" where
  r_init: "reachable main_window_init"
| r_framed: "reachable w \<Longrightarrow> reachable (on_framed frame w)"
| r_toggle: "reachable w \<Longrightarrow> reachable (toggle_cursor w)"
| r_up: "reachable w \<Longrightarrow> reachable (move_up w)"
| r_dn: "reachable w \<Longrightarrow> reachable (move_dn w)"
| r_send: "reachable w \<Longrightarrow> reachable (send data w)"
| r_port: "reachable w \<Longrightarrow> reachable (w\<lparr>ser := p\<rparr>)"
| r_log: "reachable w \<Longrightarrow> reachable (w\<lparr>log := l\<rparr>)"

section \<open>Facts about the framer\<close>

lemma feed_byte_out:
  "feed_byte b out s = (out @ fst (feed_byte b [] s), snd (feed_byte b [] s))"
  by (simp add: feed_byte_def)

lemma feed_loop_out:
  "feed_loop chunk out s = (out @ fst (feed_loop chunk [] s), snd (feed_loop chunk [] s))"
proof (induction chunk arbitrary: out s)
  case Nil
  show ?case by simp
next
  case (Cons b chunk)
  obtain o1 s1 where step: "feed_byte b [] s = (o1, s1)"
    by (cases "feed_byte b [] s")
  have full: "feed_byte b out s = (out @ o1, s1)"
    using feed_byte_out [of b out s] step by simp
  have "feed_loop (b # chunk) out s = feed_loop chunk (out @ o1) s1"
    using full by simp
  also have "\<dots> = ((out @ o1) @ fst (feed_loop chunk [] s1), snd (feed_loop chunk [] s1))"
    by (rule Cons.IH)
  finally have lhs: "feed_loop (b # chunk) out s =
      (out @ o1 @ fst (feed_loop chunk [] s1), snd (feed_loop chunk [] s1))"
    by simp
  have "feed_loop (b # chunk) [] s = feed_loop chunk o1 s1"
    using step by simp
  also have "\<dots> = (o1 @ fst (feed_loop chunk [] s1), snd (feed_loop chunk [] s1))"
    by (rule Cons.IH)
  finally have rhs: "feed_loop (b # chunk) [] s =
      (o1 @ fst (feed_loop chunk [] s1), snd (feed_loop chunk [] s1))" .
  show ?case
    by (simp only: lhs rhs fst_conv snd_conv)
qed

lemma feed_loop_append:
  "feed_loop (xs @ ys) out s =
     (case feed_loop xs out s of (out', s') \<Rightarrow> feed_loop ys out' s')"
  by (induction xs arbitrary: out s) (auto split: prod.splits)

lemma feed_append:
  "feed (xs @ ys) s =
     (case feed xs s of (fs, s') \<Rightarrow>
        (case feed ys s' of (gs, s'') \<Rightarrow> (fs @ gs, s'')))"
proof -
  obtain fs s' where a: "feed_loop xs [] s = (fs, s')"
    by (cases "feed_loop xs [] s")
  obtain gs s'' where b: "feed_loop ys [] s' = (gs, s'')"
    by (cases "feed_loop ys [] s'")
  have "feed_loop (xs @ ys) [] s = feed_loop ys fs s'"
    by (simp add: feed_loop_append a)
  also have "\<dots> = (fs @ gs, s'')"
    using feed_loop_out [of ys fs s'] b by simp
  finally show ?thesis
    by (simp add: feed_def a b)
qed

lemma feed_chunks_concat: "feed_chunks cs s = feed (concat cs) s"
proof (induction cs arbitrary: s)
  case Nil
  show ?case by (simp add: feed_def)
next
  case (Cons c cs)
  show ?case
    by (simp add: feed_append Cons.IH split: prod.splits)
qed

lemma feed_byte_nonempty:
  "\<forall>f \<in> set out. f \<noteq> [] \<Longrightarrow> \<forall>f \<in> set (fst (feed_byte b out s)). f \<noteq> []"
  by (auto simp: feed_byte_def)

lemma feed_loop_nonempty:
  "\<forall>f \<in> set out. f \<noteq> [] \<Longrightarrow> \<forall>f \<in> set (fst (feed_loop chunk out s)). f \<noteq> []"
proof (induction chunk arbitrary: out s)
  case Nil
  then show ?case by simp
next
  case (Cons b chunk)
  obtain o1 s1 where step: "feed_byte b out s = (o1, s1)"
    by (cases "feed_byte b out s")
  have "\<forall>f \<in> set o1. f \<noteq> []"
    using feed_byte_nonempty [OF Cons.prems, of b s] step by simp
  then have "\<forall>f \<in> set (fst (feed_loop chunk o1 s1)). f \<noteq> []"
    by (rule Cons.IH)
  then show ?case
    using step by simp
qed

lemma feed_byte_inv: "framer_inv s \<Longrightarrow> framer_inv (snd (feed_byte b out s))"
  by (auto simp: feed_byte_def framer_inv_def)

lemma feed_loop_inv: "framer_inv s \<Longrightarrow> framer_inv (snd (feed_loop chunk out s))"
proof (induction chunk arbitrary: out s)
  case Nil
  then show ?case by simp
next
  case (Cons b chunk)
  obtain o1 s1 where step: "feed_byte b out s = (o1, s1)"
    by (cases "feed_byte b out s")
  have "framer_inv s1"
    using feed_byte_inv [OF Cons.prems, of b out] step by simp
  then have "framer_inv (snd (feed_loop chunk o1 s1))"
    by (rule Cons.IH)
  then show ?case
    using step by simp
qed

lemma feed_chunks_inv: "framer_inv s \<Longrightarrow> framer_inv (snd (feed_chunks cs s))"
proof (induction cs arbitrary: s)
  case Nil
  then show ?case by simp
next
  case (Cons c cs)
  obtain fs s1 where a: "feed c s = (fs, s1)"
    by (cases "feed c s")
  have "framer_inv s1"
    using feed_loop_inv [OF Cons.prems, of c "[]"] a by (simp add: feed_def)
  then have "framer_inv (snd (feed_chunks cs s1))"
    by (rule Cons.IH)
  then show ?case
    using a by (cases "feed_chunks cs s1") simp
qed

section \<open>Facts about the line splitter\<close>

lemma strip_subset: "set (strip s) \<subseteq> set s"
proof -
  have "set (strip s) \<subseteq> set (dropWhile isspace s)"
    unfolding strip_def using set_dropWhileD [of _ isspace "rev (dropWhile isspace s)"] by auto
  also have "\<dots> \<subseteq> set s"
    using set_dropWhileD [of _ isspace s] by auto
  finally show ?thesis .
qed

lemma strip_head: "strip s = [] \<or> \<not> isspace (hd (strip s))"
proof (cases "strip s = []")
  case True
  then show ?thesis by simp
next
  case False
  define u where "u = dropWhile isspace s"
  define v where "v = dropWhile isspace (rev u)"
  have t: "strip s = rev v"
    by (simp add: strip_def u_def v_def)
  have v: "v \<noteq> []"
    using False t by simp
  have "rev u = takeWhile isspace (rev u) @ v"
    by (simp add: v_def)
  then have "last (rev u) = last v"
    using v by (metis last_appendR)
  moreover have "u \<noteq> []"
    using v by (auto simp: v_def)
  ultimately have "last v = hd u"
    by (simp add: last_rev)
  moreover have "\<not> isspace (hd u)"
    using \<open>u \<noteq> []\<close> unfolding u_def by (rule hd_dropWhile)
  ultimately show ?thesis
    using v by (simp add: t hd_rev)
qed

lemma strip_last: "strip s = [] \<or> \<not> isspace (last (strip s))"
proof (cases "strip s = []")
  case True
  then show ?thesis by simp
next
  case False
  define v where "v = dropWhile isspace (rev (dropWhile isspace s))"
  have t: "strip s = rev v"
    by (simp add: strip_def v_def)
  have v: "v \<noteq> []"
    using False t by simp
  then have "\<not> isspace (hd v)"
    unfolding v_def by (rule hd_dropWhile)
  then show ?thesis
    using v by (simp add: t last_rev)
qed

lemma strip_idem: "strip (strip s) = strip s"
proof (cases "strip s = []")
  case True
  have "strip [] = []"
    by (simp add: strip_def)
  then show ?thesis
    by (simp only: True)
next
  case False
  have h: "\<not> isspace (hd (strip s))"
    using strip_head [of s] False by simp
  have l: "\<not> isspace (last (strip s))"
    using strip_last [of s] False by simp
  have a: "dropWhile isspace (strip s) = strip s"
    using h False by (cases "strip s") auto
  have "\<not> isspace (hd (rev (strip s)))"
    using l False by (simp add: hd_rev)
  then have b: "dropWhile isspace (rev (strip s)) = rev (strip s)"
    using False by (cases "rev (strip s)") auto
  show ?thesis
    unfolding strip_def [of "strip s"] by (simp only: a b rev_rev_ident)
qed

lemma split_byte_lines:
  "split_byte b lines buf = (lines @ fst (split_byte b [] buf), snd (split_byte b [] buf))"
  by (simp add: split_byte_def)

lemma split_loop_lines:
  "split_loop data lines buf =
     (lines @ fst (split_loop data [] buf), snd (split_loop data [] buf))"
proof (induction data arbitrary: lines buf)
  case Nil
  show ?case by simp
next
  case (Cons b data)
  obtain l1 b1 where step: "split_byte b [] buf = (l1, b1)"
    by (cases "split_byte b [] buf")
  have full: "split_byte b lines buf = (lines @ l1, b1)"
    using split_byte_lines [of b lines buf] step by simp
  have lhs: "split_loop (b # data) lines buf =
      (lines @ l1 @ fst (split_loop data [] b1), snd (split_loop data [] b1))"
    using full Cons.IH [of "lines @ l1" b1] by simp
  have rhs: "split_loop (b # data) [] buf =
      (l1 @ fst (split_loop data [] b1), snd (split_loop data [] b1))"
    using step Cons.IH [of l1 b1] by simp
  show ?case
    by (simp only: lhs rhs fst_conv snd_conv)
qed

lemma split_loop_append:
  "split_loop (xs @ ys) lines buf =
     (case split_loop xs lines buf of (lines', buf') \<Rightarrow> split_loop ys lines' buf')"
  by (induction xs arbitrary: lines buf) (auto split: prod.splits)

lemma split_loop_plain:
  "set data \<inter> {0xC0, 0x94, 0xD4} = {} \<Longrightarrow>
   split_loop data lines buf =
     (lines, buf @ filter (\<lambda>b. (32 \<le> b \<and> b \<le> 126) \<or> LCD_CHAR_MAP b \<noteq> None) data)"
proof (induction data arbitrary: buf)
  case Nil
  show ?case by simp
next
  case (Cons b data)
  have nb: "b \<notin> {0xC0, 0x94, 0xD4}" and rest: "set data \<inter> {0xC0, 0x94, 0xD4} = {}"
    using Cons.prems by auto
  show ?case
  proof (cases "(32 \<le> b \<and> b \<le> 126) \<or> LCD_CHAR_MAP b \<noteq> None")
    case True
    then have "split_byte b lines buf = (lines, buf @ [b])"
      using nb by (simp add: split_byte_def)
    then show ?thesis
      using True Cons.IH [OF rest, of "buf @ [b]"] by simp
  next
    case False
    then have "split_byte b lines buf = (lines, buf)"
      using nb by (simp add: split_byte_def)
    then show ?thesis
      using False Cons.IH [OF rest, of buf] by simp
  qed
qed

lemma split_lcd_lines_control:
  assumes c: "c \<in> {0xC0, 0x94, 0xD4}"
  shows "split_lcd_lines (xs @ c # ys) = split_lcd_lines xs @ split_lcd_lines ys"
proof -
  obtain l1 b1 where x: "split_loop xs [] [] = (l1, b1)"
    by (cases "split_loop xs [] []")
  obtain l3 b3 where y: "split_loop ys [] [] = (l3, b3)"
    by (cases "split_loop ys [] []")
  define l2 where "l2 = (if b1 \<noteq> [] then l1 @ [strip (to_text b1)] else l1)"
  have step: "split_byte c l1 b1 = (l2, [])"
    using c by (auto simp: split_byte_def l2_def)
  have "split_loop (xs @ c # ys) [] [] = split_loop ys l2 []"
    by (simp add: split_loop_append x step)
  also have "\<dots> = (l2 @ l3, b3)"
    using split_loop_lines [of ys l2 "[]"] y by simp
  finally have all: "split_loop (xs @ c # ys) [] [] = (l2 @ l3, b3)" .
  show ?thesis
    by (simp add: split_lcd_lines_def all x y l2_def)
qed

lemma split_lcd_lines_plain:
  assumes "set data \<inter> {0xC0, 0x94, 0xD4} = {}"
  shows "split_lcd_lines data =
    (let t = strip (to_text (filter (\<lambda>b. (32 \<le> b \<and> b \<le> 126) \<or> LCD_CHAR_MAP b \<noteq> None) data))
     in if t = [] then [] else [t])"
proof -
  define kept where "kept = filter (\<lambda>b. (32 \<le> b \<and> b \<le> 126) \<or> LCD_CHAR_MAP b \<noteq> None) data"
  have l: "split_loop data [] [] = ([], kept)"
    using split_loop_plain [OF assms, of "[]" "[]"] by (simp add: kept_def)
  have e: "strip [] = []"
    by (simp add: strip_def)
  have "split_lcd_lines data = (let t = strip (to_text kept) in if t = [] then [] else [t])"
  proof (cases "kept = []")
    case True
    then show ?thesis
      using l e by (simp add: split_lcd_lines_def)
  next
    case False
    then show ?thesis
      using l by (simp add: split_lcd_lines_def strip_idem Let_def)
  qed
  then show ?thesis
    unfolding kept_def .
qed

lemma split_lcd_lines_nonblank: "\<forall>ln \<in> set (split_lcd_lines data). strip ln \<noteq> []"
  by (auto simp: split_lcd_lines_def split: prod.splits)

lemma split_lcd_lines_only_control:
  "set data \<subseteq> {0xC0, 0x94, 0xD4} \<Longrightarrow> split_loop data lines [] = (lines, [])"
  by (induction data) (auto simp: split_byte_def)

lemma to_text_no_filled: "0xD4 \<notin> set raw \<Longrightarrow> 0x25CF \<notin> set (to_text raw)"
proof (induction raw)
  case Nil
  show ?case by simp
next
  case (Cons b raw)
  have ih: "0x25CF \<notin> set (to_text raw)"
    using Cons by simp
  have b: "b \<noteq> 0xD4"
    using Cons.prems by auto
  have p: "b \<le> 126 \<Longrightarrow> unat b \<noteq> 0x25CF"
    by (simp add: word_le_nat_alt)
  show ?case
    using ih b p
    by (auto simp: LCD_CHAR_MAP_def PRINTABLE_MAX_def split: option.splits if_splits)
qed

lemma split_loop_no_filled:
  "0xD4 \<notin> set buf \<Longrightarrow> \<forall>ln \<in> set lines. 0x25CF \<notin> set ln \<Longrightarrow>
   0xD4 \<notin> set (snd (split_loop data lines buf))
   \<and> (\<forall>ln \<in> set (fst (split_loop data lines buf)). 0x25CF \<notin> set ln)"
proof (induction data arbitrary: lines buf)
  case Nil
  then show ?case by simp
next
  case (Cons b data)
  obtain l1 b1 where step: "split_byte b lines buf = (l1, b1)"
    by (cases "split_byte b lines buf")
  have t: "0x25CF \<notin> set (strip (to_text buf))"
    using to_text_no_filled [OF Cons.prems(1)] strip_subset [of "to_text buf"] by auto
  have b1: "0xD4 \<notin> set b1"
    using step Cons.prems(1) by (auto simp: split_byte_def split: if_splits)
  have l1: "\<forall>ln \<in> set l1. 0x25CF \<notin> set ln"
    using step Cons.prems(2) t by (auto simp: split_byte_def split: if_splits)
  show ?case
    using Cons.IH [OF b1 l1] step by simp
qed

lemma split_lcd_lines_no_filled: "\<forall>ln \<in> set (split_lcd_lines data). 0x25CF \<notin> set ln"
proof -
  obtain lines buf where l: "split_loop data [] [] = (lines, buf)"
    by (cases "split_loop data [] []")
  have inv: "0xD4 \<notin> set buf \<and> (\<forall>ln \<in> set lines. 0x25CF \<notin> set ln)"
    using split_loop_no_filled [of "[]" "[]" data] l by simp
  then have "0x25CF \<notin> set (strip (to_text buf))"
    using to_text_no_filled [of buf] strip_subset [of "to_text buf"] by auto
  then show ?thesis
    using inv l by (auto simp: split_lcd_lines_def)
qed

section \<open>Facts about the window\<close>

lemma filter_nonblank_id:
  "\<forall>ln \<in> set ls. strip ln \<noteq> [] \<Longrightarrow> filter (\<lambda>ln. strip ln \<noteq> []) ls = ls"
  by (induction ls) auto

lemma render_lcd_empty: "current_lines w = [] \<Longrightarrow> render_lcd w = w"
  by (simp add: render_lcd_def)

lemma render_lcd_lines: "current_lines (render_lcd w) = current_lines w"
  by (simp add: render_lcd_def Let_def)

lemma render_lcd_ser: "ser (render_lcd w) = ser w"
  by (simp add: render_lcd_def Let_def)

lemma render_lcd_cursor:
  assumes "\<forall>ln \<in> set (current_lines w). strip ln \<noteq> []" and "current_lines w \<noteq> []"
  shows "cursor_index (render_lcd w) = cursor_index w mod int (length (current_lines w))"
  using assms by (simp add: render_lcd_def Let_def filter_nonblank_id)

lemma send_cursor: "cursor_index (send data w) = cursor_index w"
  by (simp add: send_def split: option.splits sum.splits)

lemma send_lines: "current_lines (send data w) = current_lines w"
  by (simp add: send_def split: option.splits sum.splits)

lemma send_ok:
  "ser w = Some p \<Longrightarrow> is_open p \<Longrightarrow> fault p = None \<Longrightarrow>
   ser (send data w) = Some (p\<lparr>written := written p @ data\<rparr>)"
  by (simp add: send_def serial_write_def)

lemma on_framed_lines:
  "current_lines (on_framed frame w) = split_lcd_lines (filter (\<lambda>b. b \<notin> {0x80}) frame)"
  by (simp add: on_framed_def Let_def render_lcd_lines)

lemma reachable_clean: "reachable w \<Longrightarrow> \<forall>ln \<in> set (current_lines w). strip ln \<noteq> []"
proof (induction rule: reachable.induct)
  case r_init
  show ?case by (simp add: main_window_init_def)
next
  case (r_framed w frame)
  show ?case
    unfolding on_framed_lines by (rule split_lcd_lines_nonblank)
next
  case (r_toggle w)
  then show ?case by (simp add: toggle_cursor_def render_lcd_lines)
next
  case (r_up w)
  then show ?case by (simp add: move_up_def send_lines render_lcd_lines)
next
  case (r_dn w)
  then show ?case by (simp add: move_dn_def send_lines render_lcd_lines)
next
  case (r_send w data)
  then show ?case by (simp add: send_lines)
next
  case (r_port w p)
  then show ?case by simp
next
  case (r_log w l)
  then show ?case by simp
qed

lemma move_up_cursor:
  assumes "\<forall>ln \<in> set (current_lines w). strip ln \<noteq> []" and "current_lines w \<noteq> []"
  shows "cursor_index (move_up w) = (cursor_index w - 1) mod int (length (current_lines w))"
proof -
  define w1 where
    "w1 = w\<lparr>cursor_index := (cursor_index w - 1) mod int (length (current_lines w))\<rparr>"
  have "cursor_index (render_lcd w1) = cursor_index w1 mod int (length (current_lines w1))"
    by (rule render_lcd_cursor) (use assms in \<open>simp_all add: w1_def\<close>)
  then have "cursor_index (render_lcd w1) =
      (cursor_index w - 1) mod int (length (current_lines w))"
    by (simp add: w1_def)
  then show ?thesis
    using assms(2) by (simp add: move_up_def send_cursor w1_def)
qed

lemma move_dn_cursor:
  assumes "\<forall>ln \<in> set (current_lines w). strip ln \<noteq> []" and "current_lines w \<noteq> []"
  shows "cursor_index (move_dn w) = (cursor_index w + 1) mod int (length (current_lines w))"
proof -
  define w1 where
    "w1 = w\<lparr>cursor_index := (cursor_index w + 1) mod int (length (current_lines w))\<rparr>"
  have "cursor_index (render_lcd w1) = cursor_index w1 mod int (length (current_lines w1))"
    by (rule render_lcd_cursor) (use assms in \<open>simp_all add: w1_def\<close>)
  then have "cursor_index (render_lcd w1) =
      (cursor_index w + 1) mod int (length (current_lines w))"
    by (simp add: w1_def)
  then show ?thesis
    using assms(2) by (simp add: move_dn_def send_cursor w1_def)
qed

lemma move_up_sent:
  assumes "current_lines w \<noteq> []" and "ser w = Some p" and "is_open p" and "fault p = None"
  shows "ser (move_up w) = Some (p\<lparr>written := written p @ [0x08]\<rparr>)"
proof -
  have "ser (render_lcd
      (w\<lparr>cursor_index := (cursor_index w - 1) mod int (length (current_lines w))\<rparr>)) = Some p"
    using assms(2) by (simp add: render_lcd_ser)
  then show ?thesis
    using assms(1,3,4) by (simp add: move_up_def send_ok)
qed

lemma move_dn_sent:
  assumes "current_lines w \<noteq> []" and "ser w = Some p" and "is_open p" and "fault p = None"
  shows "ser (move_dn w) = Some (p\<lparr>written := written p @ [0x01]\<rparr>)"
proof -
  have "ser (render_lcd
      (w\<lparr>cursor_index := (cursor_index w + 1) mod int (length (current_lines w))\<rparr>)) = Some p"
    using assms(2) by (simp add: render_lcd_ser)
  then show ?thesis
    using assms(1,3,4) by (simp add: move_dn_def send_ok)
qed

lemmas lcd_eval =
  split_lcd_lines_def split_byte_def LCD_CHAR_MAP_def PRINTABLE_MIN_def PRINTABLE_MAX_def
  strip_def isspace_def ascii_def

lemmas window_eval =
  on_framed_def render_lcd_def main_window_init_def join_def Let_def

lemma lines_ABC: "split_lcd_lines [0x41, 0xC0, 0x42, 0x94, 0x43] = [[0x41], [0x42], [0x43]]"
  by (simp add: lcd_eval)

lemma window_A: "on_framed [0x41] main_window_init =
    main_window_init\<lparr>current_lines := [[0x41]], lcd_view := [0x25B6, 0x20, 0x41]\<rparr>"
  by (simp add: window_eval lcd_eval)

lemma move_up_lines: "current_lines (move_up w) = current_lines w"
  by (simp add: move_up_def send_lines render_lcd_lines)

lemma window_ABC_lines:
  "current_lines (on_framed [0x41, 0xC0, 0x42, 0x94, 0x43] w) = [[0x41], [0x42], [0x43]]"
  by (simp add: on_framed_lines lines_ABC)

lemma window_ABC_cursor:
  "cursor_index (on_framed [0x41, 0xC0, 0x42, 0x94, 0x43] w) = cursor_index w mod 3"
  by (simp add: on_framed_def Let_def lines_ABC render_lcd_def strip_def isspace_def)

lemma window_ABC_ser: "ser (on_framed frame w) = ser w"
  by (simp add: on_framed_def Let_def render_lcd_ser)

section \<open>Claims\<close>

text \<open>
  C1. Chunk-boundary independence: for every list of consecutive chunks, feeding the
  chunks one by one to a fresh framer with successive \<open>feed\<close> calls emits the same
  frames in the same order as one \<open>feed\<close> call on their concatenation, and leaves the
  framer in the same state; the same holds from every other framer state.
\<close>

theorem C1_chunk_boundary_independence:
  "feed_chunks cs framer_init = feed (concat cs) framer_init
   \<and> feed_chunks cs s = feed (concat cs) s"
  by (simp add: feed_chunks_concat)

text \<open>
  C2, as stated, fails: the frame \<open>[0xC0]\<close> decodes to no line, and \<open>on_framed\<close> stores
  that empty list over the line \<open>A\<close> stored before.
\<close>

theorem C2_empty_lines_counterexample:
  "split_lcd_lines [0xC0] = []
   \<and> current_lines (on_framed [0x41] main_window_init) = [[0x41]]
   \<and> current_lines (on_framed [0xC0] (on_framed [0x41] main_window_init)) = []"
  by (simp add: window_A) (simp add: window_eval lcd_eval)

text \<open>
  C2, amended. When the frame decodes to an empty line sequence, the render is
  suppressed: the displayed text, the cursor index and the blink flag are unchanged.
  The stored line set is not kept: it is replaced by the empty sequence, so that
  \<open>move_up\<close> and \<open>move_dn\<close> are no-ops until a non-empty line set arrives.
\<close>

theorem C2_empty_lines_amended:
  assumes "split_lcd_lines (filter (\<lambda>b. b \<notin> {0x80}) frame) = []"
  shows "on_framed frame w = w\<lparr>current_lines := []\<rparr>
    \<and> current_lines (on_framed frame w) = []
    \<and> lcd_view (on_framed frame w) = lcd_view w
    \<and> cursor_index (on_framed frame w) = cursor_index w
    \<and> cursor_visible (on_framed frame w) = cursor_visible w
    \<and> move_up (on_framed frame w) = on_framed frame w
    \<and> move_dn (on_framed frame w) = on_framed frame w"
proof -
  have e: "on_framed frame w = w\<lparr>current_lines := []\<rparr>"
    using assms by (simp add: on_framed_def Let_def render_lcd_empty)
  show ?thesis
    unfolding e by (simp add: move_up_def move_dn_def)
qed

theorem C2_empty_lines_amended_witness:
  "split_lcd_lines (filter (\<lambda>b. b \<notin> {0x80}) [0x80, 0xC0]) = []
   \<and> on_framed [0x80, 0xC0] (on_framed [0x41] main_window_init) =
       main_window_init\<lparr>current_lines := [], lcd_view := [0x25B6, 0x20, 0x41]\<rparr>"
proof -
  have h: "split_lcd_lines (filter (\<lambda>b. b \<notin> {0x80}) [0x80, 0xC0]) = []"
    by (simp add: lcd_eval)
  show ?thesis
    using h C2_empty_lines_amended [OF h, of "on_framed [0x41] main_window_init"]
    by (simp add: window_A)
qed

text \<open>
  C3. Every frame that \<open>feed\<close> emits is non-empty, from every framer state and for
  every chunk. A sentinel \<open>0x7E\<close> that meets an empty buffer emits nothing, clears the
  partial state and (re-)opens a frame; \<open>feed([0x7E, 0x7E])\<close> on a fresh framer returns
  no frame.
\<close>

theorem C3_no_empty_frame:
  "(\<forall>f \<in> set (fst (feed chunk s)). f \<noteq> [])
   \<and> (in_buf s = [] \<longrightarrow>
        feed_byte 0x7E out s = (out, s\<lparr>in_buf := [], armed := True\<rparr>))
   \<and> fst (feed [0x7E, 0x7E] framer_init) = []"
proof (intro conjI)
  show "\<forall>f \<in> set (fst (feed chunk s)). f \<noteq> []"
    unfolding feed_def by (rule feed_loop_nonempty) simp
  show "in_buf s = [] \<longrightarrow> feed_byte 0x7E out s = (out, s\<lparr>in_buf := [], armed := True\<rparr>)"
    by (simp add: feed_byte_def)
  show "fst (feed [0x7E, 0x7E] framer_init) = []"
    by (simp add: feed_def feed_byte_def framer_init_def)
qed

theorem C3_no_empty_frame_witness:
  "[0x41, 0x42] \<in> set (fst (feed [0x7E, 0x41, 0x42, 0x7E] framer_init))
   \<and> [0x41, 0x42 :: byte] \<noteq> []
   \<and> in_buf (\<lparr>in_buf = [], armed = True\<rparr>) = []
   \<and> feed_byte 0x7E [] \<lparr>in_buf = [], armed = True\<rparr> = ([], \<lparr>in_buf = [], armed = True\<rparr>)
   \<and> fst (feed [0x7E, 0x7E] framer_init) = []"
proof -
  have mem: "[0x41, 0x42] \<in> set (fst (feed [0x7E, 0x41, 0x42, 0x7E] framer_init))"
    by (simp add: feed_def feed_byte_def framer_init_def)
  show ?thesis
    using mem
      C3_no_empty_frame [of "[0x7E, 0x41, 0x42, 0x7E]" framer_init "[]"]
      C3_no_empty_frame [of "[]" "\<lparr>in_buf = [], armed = True\<rparr>" "[]"]
    by simp
qed

text \<open>
  C4. \<open>_split_lcd_lines\<close> on \<open>[0x41, 0xC0, 0x42, 0x94, 0x43]\<close> yields the lines \<open>A\<close>,
  \<open>B\<close>, \<open>C\<close>. A control byte \<open>0xC0\<close>, \<open>0x94\<close> or \<open>0xD4\<close> flushes a non-empty buffer as
  a completed trimmed line and is not appended to the buffer: the lines of a frame with
  a control byte in it are those before it followed by those after it. What remains in
  the buffer after the scan is flushed as the last line: a frame without control bytes
  yields the trimmed text of its kept bytes as its one line (none when that is empty).
\<close>

theorem C4_split_lines:
  "split_lcd_lines [0x41, 0xC0, 0x42, 0x94, 0x43] = [ascii ''A'', ascii ''B'', ascii ''C'']
   \<and> (c \<in> {0xC0, 0x94, 0xD4} \<longrightarrow>
        split_byte c lines buf =
          (if buf \<noteq> [] then (lines @ [strip (to_text buf)], []) else (lines, buf)))
   \<and> (c \<in> {0xC0, 0x94, 0xD4} \<longrightarrow>
        split_lcd_lines (xs @ c # ys) = split_lcd_lines xs @ split_lcd_lines ys)
   \<and> (set data \<inter> {0xC0, 0x94, 0xD4} = {} \<longrightarrow>
        split_lcd_lines data =
          (let t = strip (to_text
                     (filter (\<lambda>b. (32 \<le> b \<and> b \<le> 126) \<or> LCD_CHAR_MAP b \<noteq> None) data))
           in if t = [] then [] else [t]))"
proof (intro conjI impI)
  show "split_lcd_lines [0x41, 0xC0, 0x42, 0x94, 0x43] = [ascii ''A'', ascii ''B'', ascii ''C'']"
    by (simp add: lines_ABC ascii_def)
next
  assume "c \<in> {0xC0, 0x94, 0xD4}"
  then show "split_byte c lines buf =
      (if buf \<noteq> [] then (lines @ [strip (to_text buf)], []) else (lines, buf))"
    by (auto simp: split_byte_def)
next
  assume "c \<in> {0xC0, 0x94, 0xD4}"
  then show "split_lcd_lines (xs @ c # ys) = split_lcd_lines xs @ split_lcd_lines ys"
    by (rule split_lcd_lines_control)
next
  assume "set data \<inter> {0xC0, 0x94, 0xD4} = {}"
  then show "split_lcd_lines data =
      (let t = strip (to_text
                 (filter (\<lambda>b. (32 \<le> b \<and> b \<le> 126) \<or> LCD_CHAR_MAP b \<noteq> None) data))
       in if t = [] then [] else [t])"
    by (rule split_lcd_lines_plain)
qed

theorem C4_split_lines_witness:
  "(0xC0 :: byte) \<in> {0xC0, 0x94, 0xD4}
   \<and> split_byte 0xC0 [] [0x41] = ([[0x41]], [])
   \<and> split_lcd_lines ([0x41] @ 0xC0 # [0x42]) = split_lcd_lines [0x41] @ split_lcd_lines [0x42]
   \<and> set [0x20, 0x41, 0x07, 0x20 :: byte] \<inter> {0xC0, 0x94, 0xD4} = {}
   \<and> split_lcd_lines [0x20, 0x41, 0x07, 0x20] = [ascii ''A'']"
proof -
  have c: "(0xC0 :: byte) \<in> {0xC0, 0x94, 0xD4}"
    by simp
  have d: "set [0x20, 0x41, 0x07, 0x20 :: byte] \<inter> {0xC0, 0x94, 0xD4} = {}"
    by simp
  have t: "strip (to_text [0x41]) = [0x41]"
    by (simp add: lcd_eval)
  have u: "strip (to_text
      (filter (\<lambda>b. (32 \<le> b \<and> b \<le> 126) \<or> LCD_CHAR_MAP b \<noteq> None) [0x20, 0x41, 0x07, 0x20]))
      = ascii ''A''"
    by (simp add: lcd_eval)
  have n: "ascii ''A'' \<noteq> []"
    by (simp add: ascii_def)
  show ?thesis
    using c d t u n
      C4_split_lines [of "0xC0" "[]" "[0x41]" "[0x41]" "[0x42]" "[0x20, 0x41, 0x07, 0x20]"]
    by (simp add: Let_def)
qed

text \<open>
  C5. No line returned by \<open>_split_lcd_lines\<close> is empty, and none is empty after
  trimming; a frame of control bytes only yields no line.
\<close>

theorem C5_no_blank_line:
  "(\<forall>ln \<in> set (split_lcd_lines data). ln \<noteq> [] \<and> strip ln \<noteq> [])
   \<and> (set data \<subseteq> {0xC0, 0x94, 0xD4} \<longrightarrow> split_lcd_lines data = [])"
proof (intro conjI impI ballI)
  fix ln
  assume "ln \<in> set (split_lcd_lines data)"
  then show "strip ln \<noteq> []"
    using split_lcd_lines_nonblank by blast
  then show "ln \<noteq> []"
    by (auto simp: strip_def)
next
  assume "set data \<subseteq> {0xC0, 0x94, 0xD4}"
  then have "split_loop data [] [] = ([], [])"
    by (rule split_lcd_lines_only_control)
  then show "split_lcd_lines data = []"
    by (simp add: split_lcd_lines_def)
qed

theorem C5_no_blank_line_witness:
  "[0x41] \<in> set (split_lcd_lines [0x20, 0xC0, 0x20, 0x41, 0x20])
   \<and> [0x41 :: nat] \<noteq> [] \<and> strip [0x41] \<noteq> []
   \<and> set [0xC0, 0xD4, 0x94, 0xC0 :: byte] \<subseteq> {0xC0, 0x94, 0xD4}
   \<and> split_lcd_lines [0xC0, 0xD4, 0x94, 0xC0] = []"
proof -
  have m: "[0x41] \<in> set (split_lcd_lines [0x20, 0xC0, 0x20, 0x41, 0x20])"
    by (simp add: lcd_eval)
  have s: "set [0xC0, 0xD4, 0x94, 0xC0 :: byte] \<subseteq> {0xC0, 0x94, 0xD4}"
    by simp
  show ?thesis
    using m s
      C5_no_blank_line [of "[0x20, 0xC0, 0x20, 0x41, 0x20]"]
      C5_no_blank_line [of "[0xC0, 0xD4, 0x94, 0xC0]"]
    by blast
qed

text \<open>
  C6. The byte \<open>0xD4\<close> always terminates a line and never renders: no returned line
  contains the filled circle U+25CF, for every frame, although the glyph table maps
  \<open>0xD4\<close> to it and \<open>_to_text\<close> would render it.
\<close>

theorem C6_D4_terminates:
  "(\<forall>ln \<in> set (split_lcd_lines data). 0x25CF \<notin> set ln)
   \<and> split_lcd_lines (xs @ 0xD4 # ys) = split_lcd_lines xs @ split_lcd_lines ys
   \<and> LCD_CHAR_MAP 0xD4 = Some [0x25CF]
   \<and> to_text [0xD4] = [0x25CF]"
proof (intro conjI)
  show "\<forall>ln \<in> set (split_lcd_lines data). 0x25CF \<notin> set ln"
    by (rule split_lcd_lines_no_filled)
  show "split_lcd_lines (xs @ 0xD4 # ys) = split_lcd_lines xs @ split_lcd_lines ys"
    by (rule split_lcd_lines_control) simp
  show "LCD_CHAR_MAP 0xD4 = Some [0x25CF]"
    by (simp add: LCD_CHAR_MAP_def)
  then show "to_text [0xD4] = [0x25CF]"
    by simp
qed

theorem C6_D4_terminates_witness:
  "[0x25CB, 0x41] \<in> set (split_lcd_lines [0x25, 0xD4, 0xE4, 0x41])
   \<and> 0x25CF \<notin> set [0x25CB, 0x41 :: nat]
   \<and> split_lcd_lines [0x25, 0xD4, 0xE4, 0x41] = [[0x25], [0x25CB, 0x41]]"
proof -
  have e: "split_lcd_lines [0x25, 0xD4, 0xE4, 0x41] = [[0x25], [0x25CB, 0x41]]"
    by (simp add: lcd_eval)
  have m: "[0x25CB, 0x41] \<in> set (split_lcd_lines [0x25, 0xD4, 0xE4, 0x41])"
    by (simp add: e)
  have n: "0x25CF \<notin> set [0x25CB, 0x41 :: nat]"
    using m C6_D4_terminates [of "[0x25, 0xD4, 0xE4, 0x41]" "[0x25]" "[0xE4, 0x41]"]
    by blast
  show ?thesis
    using e m n by blast
qed

text \<open>
  C7. In every reachable state of the window: with no stored line, \<open>move_up\<close> and
  \<open>move_dn\<close> change nothing (no index change, nothing sent, nothing logged). Otherwise
  the cursor index becomes the old index minus one, respectively plus one, modulo the
  number of lines, wrapping at both ends (from 0 over 3 lines up to 2, from 2 down to
  0), and the command byte \<open>0x08\<close>, respectively \<open>0x01\<close>, is handed to \<open>_send\<close>, which
  writes it to the port when the port is open and the write succeeds.
\<close>

theorem C7_move_up_down:
  assumes "reachable w"
  shows "(current_lines w = [] \<longrightarrow> move_up w = w \<and> move_dn w = w)
    \<and> (current_lines w \<noteq> [] \<longrightarrow>
         cursor_index (move_up w) = (cursor_index w - 1) mod int (length (current_lines w))
       \<and> cursor_index (move_dn w) = (cursor_index w + 1) mod int (length (current_lines w))
       \<and> move_up w = send [0x08] (render_lcd
           (w\<lparr>cursor_index := (cursor_index w - 1) mod int (length (current_lines w))\<rparr>))
       \<and> move_dn w = send [0x01] (render_lcd
           (w\<lparr>cursor_index := (cursor_index w + 1) mod int (length (current_lines w))\<rparr>))
       \<and> (ser w = Some p \<and> is_open p \<and> fault p = None \<longrightarrow>
            ser (move_up w) = Some (p\<lparr>written := written p @ [0x08]\<rparr>)
          \<and> ser (move_dn w) = Some (p\<lparr>written := written p @ [0x01]\<rparr>)))
    \<and> (length (current_lines w) = 3 \<and> cursor_index w = 0 \<longrightarrow> cursor_index (move_up w) = 2)
    \<and> (length (current_lines w) = 3 \<and> cursor_index w = 2 \<longrightarrow> cursor_index (move_dn w) = 0)"
proof -
  have clean: "\<forall>ln \<in> set (current_lines w). strip ln \<noteq> []"
    using assms by (rule reachable_clean)
  have up: "current_lines w \<noteq> [] \<Longrightarrow>
      cursor_index (move_up w) = (cursor_index w - 1) mod int (length (current_lines w))"
    using clean by (rule move_up_cursor)
  have dn: "current_lines w \<noteq> [] \<Longrightarrow>
      cursor_index (move_dn w) = (cursor_index w + 1) mod int (length (current_lines w))"
    using clean by (rule move_dn_cursor)
  have noop: "current_lines w = [] \<longrightarrow> move_up w = w \<and> move_dn w = w"
    by (simp add: move_up_def move_dn_def)
  have wrap_up: "length (current_lines w) = 3 \<and> cursor_index w = 0 \<longrightarrow>
      cursor_index (move_up w) = 2"
  proof
    assume a: "length (current_lines w) = 3 \<and> cursor_index w = 0"
    then have "current_lines w \<noteq> []" by auto
    then show "cursor_index (move_up w) = 2"
      using up a by simp
  qed
  have wrap_dn: "length (current_lines w) = 3 \<and> cursor_index w = 2 \<longrightarrow>
      cursor_index (move_dn w) = 0"
  proof
    assume a: "length (current_lines w) = 3 \<and> cursor_index w = 2"
    then have "current_lines w \<noteq> []" by auto
    then show "cursor_index (move_dn w) = 0"
      using dn a by simp
  qed
  have body: "current_lines w \<noteq> [] \<longrightarrow>
         cursor_index (move_up w) = (cursor_index w - 1) mod int (length (current_lines w))
       \<and> cursor_index (move_dn w) = (cursor_index w + 1) mod int (length (current_lines w))
       \<and> move_up w = send [0x08] (render_lcd
           (w\<lparr>cursor_index := (cursor_index w - 1) mod int (length (current_lines w))\<rparr>))
       \<and> move_dn w = send [0x01] (render_lcd
           (w\<lparr>cursor_index := (cursor_index w + 1) mod int (length (current_lines w))\<rparr>))
       \<and> (ser w = Some p \<and> is_open p \<and> fault p = None \<longrightarrow>
            ser (move_up w) = Some (p\<lparr>written := written p @ [0x08]\<rparr>)
          \<and> ser (move_dn w) = Some (p\<lparr>written := written p @ [0x01]\<rparr>))"
    using up dn move_up_sent [of w p] move_dn_sent [of w p]
    by (simp add: move_up_def move_dn_def)
  show ?thesis
    using noop body wrap_up wrap_dn by blast
qed

theorem C7_move_up_down_witness:
  "reachable main_window_init
   \<and> current_lines main_window_init = []
   \<and> move_up main_window_init = main_window_init
   \<and> move_dn main_window_init = main_window_init
   \<and> reachable (on_framed [0x41, 0xC0, 0x42, 0x94, 0x43]
        (main_window_init\<lparr>ser := Some \<lparr>is_open = True, fault = None, written = []\<rparr>\<rparr>))
   \<and> length (current_lines (on_framed [0x41, 0xC0, 0x42, 0x94, 0x43]
        (main_window_init\<lparr>ser := Some \<lparr>is_open = True, fault = None, written = []\<rparr>\<rparr>))) = 3
   \<and> cursor_index (on_framed [0x41, 0xC0, 0x42, 0x94, 0x43]
        (main_window_init\<lparr>ser := Some \<lparr>is_open = True, fault = None, written = []\<rparr>\<rparr>)) = 0
   \<and> cursor_index (move_up (on_framed [0x41, 0xC0, 0x42, 0x94, 0x43]
        (main_window_init\<lparr>ser := Some \<lparr>is_open = True, fault = None, written = []\<rparr>\<rparr>))) = 2
   \<and> ser (move_up (on_framed [0x41, 0xC0, 0x42, 0x94, 0x43]
        (main_window_init\<lparr>ser := Some \<lparr>is_open = True, fault = None, written = []\<rparr>\<rparr>)))
       = Some \<lparr>is_open = True, fault = None, written = [0x08]\<rparr>
   \<and> ser (move_dn (on_framed [0x41, 0xC0, 0x42, 0x94, 0x43]
        (main_window_init\<lparr>ser := Some \<lparr>is_open = True, fault = None, written = []\<rparr>\<rparr>)))
       = Some \<lparr>is_open = True, fault = None, written = [0x01]\<rparr>
   \<and> cursor_index (move_dn (move_up (on_framed [0x41, 0xC0, 0x42, 0x94, 0x43]
        (main_window_init\<lparr>ser := Some \<lparr>is_open = True, fault = None, written = []\<rparr>\<rparr>)))) = 0"
proof -
  define p0 where "p0 = \<lparr>is_open = True, fault = None, written = []\<rparr>"
  define w0 where
    "w0 = on_framed [0x41, 0xC0, 0x42, 0x94, 0x43] (main_window_init\<lparr>ser := Some p0\<rparr>)"
  have r_i: "reachable main_window_init"
    by (rule r_init)
  have e_i: "current_lines main_window_init = []"
    by (simp add: main_window_init_def)
  have r0: "reachable w0"
    unfolding w0_def by (intro r_framed r_port r_init)
  have l0: "current_lines w0 = [[0x41], [0x42], [0x43]]"
    unfolding w0_def by (rule window_ABC_lines)
  have c0: "cursor_index w0 = 0"
    unfolding w0_def by (simp add: window_ABC_cursor main_window_init_def)
  have s0: "ser w0 = Some p0"
    unfolding w0_def by (simp add: window_ABC_ser)
  have p: "is_open p0 \<and> fault p0 = None \<and> written p0 = []"
    by (simp add: p0_def)
  have idle: "move_up main_window_init = main_window_init
      \<and> move_dn main_window_init = main_window_init"
    using C7_move_up_down [OF r_i] e_i by blast
  have t0: "cursor_index (move_up w0) = 2
      \<and> ser (move_up w0) = Some (p0\<lparr>written := written p0 @ [0x08]\<rparr>)
      \<and> ser (move_dn w0) = Some (p0\<lparr>written := written p0 @ [0x01]\<rparr>)"
  proof -
    have ne: "current_lines w0 \<noteq> []" and l3: "length (current_lines w0) = 3"
      by (simp_all add: l0)
    show ?thesis
      using C7_move_up_down [OF r0, of p0] ne l3 c0 s0 p by blast
  qed
  have r2: "reachable (move_up w0)"
    using r0 by (rule r_up)
  have l2: "length (current_lines (move_up w0)) = 3"
    by (simp add: move_up_lines l0)
  have t2: "cursor_index (move_dn (move_up w0)) = 0"
    using C7_move_up_down [OF r2] l2 t0 by blast
  have l3: "length (current_lines w0) = 3"
    by (simp add: l0)
  have w: "p0\<lparr>written := written p0 @ [0x08]\<rparr> = \<lparr>is_open = True, fault = None, written = [0x08]\<rparr>"
    "p0\<lparr>written := written p0 @ [0x01]\<rparr> = \<lparr>is_open = True, fault = None, written = [0x01]\<rparr>"
    by (simp_all add: p0_def)
  show ?thesis
    using r_i e_i idle r0 l3 c0 t0 [unfolded w] t2
    unfolding w0_def p0_def by blast
qed

text \<open>
  C8. When a frame decodes to a non-empty line set, that set replaces the stored one
  and the cursor index becomes its old index modulo the new number of lines: 7 becomes
  1 over three lines (clamping would give 2, resetting 0), and 5 becomes 2.
\<close>

theorem C8_index_modulo:
  "(split_lcd_lines (filter (\<lambda>b. b \<notin> {0x80}) frame) \<noteq> [] \<longrightarrow>
      current_lines (on_framed frame w) = split_lcd_lines (filter (\<lambda>b. b \<notin> {0x80}) frame)
    \<and> cursor_index (on_framed frame w) =
        cursor_index w mod int (length (split_lcd_lines (filter (\<lambda>b. b \<notin> {0x80}) frame))))
   \<and> cursor_index (on_framed [0x41, 0xC0, 0x42, 0x94, 0x43] (w\<lparr>cursor_index := 7\<rparr>)) = 1
   \<and> cursor_index (on_framed [0x41, 0xC0, 0x42, 0x94, 0x43] (w\<lparr>cursor_index := 5\<rparr>)) = 2"
proof -
  define ls where "ls = split_lcd_lines (filter (\<lambda>b. b \<notin> {0x80}) frame)"
  have gen: "ls \<noteq> [] \<longrightarrow> current_lines (on_framed frame w) = ls
      \<and> cursor_index (on_framed frame w) = cursor_index w mod int (length ls)"
  proof
    assume ne: "ls \<noteq> []"
    have clean: "\<forall>ln \<in> set (current_lines (w\<lparr>current_lines := ls\<rparr>)). strip ln \<noteq> []"
      using split_lcd_lines_nonblank by (simp add: ls_def)
    have "cursor_index (render_lcd (w\<lparr>current_lines := ls\<rparr>)) =
        cursor_index (w\<lparr>current_lines := ls\<rparr>)
          mod int (length (current_lines (w\<lparr>current_lines := ls\<rparr>)))"
      using clean by (rule render_lcd_cursor) (simp add: ne)
    then show "current_lines (on_framed frame w) = ls
        \<and> cursor_index (on_framed frame w) = cursor_index w mod int (length ls)"
      unfolding on_framed_def Let_def ls_def [symmetric] by (simp add: render_lcd_lines)
  qed
  have f: "filter (\<lambda>b. b \<notin> {0x80}) [0x41, 0xC0, 0x42, 0x94, 0x43 :: byte]
      = [0x41, 0xC0, 0x42, 0x94, 0x43]"
    by simp
  have c: "cursor_index (on_framed [0x41, 0xC0, 0x42, 0x94, 0x43] v) = cursor_index v mod 3"
    for v
    by (simp add: on_framed_def Let_def f lines_ABC render_lcd_def strip_def isspace_def)
  show ?thesis
    using gen by (simp add: ls_def c)
qed

theorem C8_index_modulo_witness:
  "split_lcd_lines (filter (\<lambda>b. b \<notin> {0x80}) [0x41, 0x80, 0xC0, 0x42]) \<noteq> []
   \<and> current_lines (on_framed [0x41, 0x80, 0xC0, 0x42] (main_window_init\<lparr>cursor_index := 7\<rparr>))
       = [[0x41], [0x42]]
   \<and> cursor_index (on_framed [0x41, 0x80, 0xC0, 0x42] (main_window_init\<lparr>cursor_index := 7\<rparr>))
       = 1"
proof -
  have l: "split_lcd_lines (filter (\<lambda>b. b \<notin> {0x80}) [0x41, 0x80, 0xC0, 0x42]) = [[0x41], [0x42]]"
    by (simp add: lcd_eval)
  have i: "cursor_index (main_window_init\<lparr>cursor_index := 7\<rparr>) = 7"
    by simp
  show ?thesis
    using C8_index_modulo [of "[0x41, 0x80, 0xC0, 0x42]" "main_window_init\<lparr>cursor_index := 7\<rparr>"]
    unfolding l i by simp
qed

text \<open>
  C9. When the write of \<open>_send\<close> raises, the exception is caught: \<open>_send\<close> returns
  normally, and the only change to the window is one \<open>[TX ERROR]\<close> line appended to the
  log. On every path \<open>_send\<close> leaves the cursor index and the stored lines unchanged.
\<close>

theorem C9_send_failure:
  "(ser w = Some p \<and> is_open p \<and> serial_write data p = Inl e \<longrightarrow>
      send data w = w\<lparr>log := log w @ [ascii ''[TX ERROR] '' @ e]\<rparr>)
   \<and> cursor_index (send data w) = cursor_index w
   \<and> current_lines (send data w) = current_lines w"
proof (intro conjI impI)
  assume "ser w = Some p \<and> is_open p \<and> serial_write data p = Inl e"
  then show "send data w = w\<lparr>log := log w @ [ascii ''[TX ERROR] '' @ e]\<rparr>"
    by (simp add: send_def)
next
  show "cursor_index (send data w) = cursor_index w"
    by (rule send_cursor)
next
  show "current_lines (send data w) = current_lines w"
    by (rule send_lines)
qed

theorem C9_send_failure_witness:
  "ser (main_window_init\<lparr>ser := Some \<lparr>is_open = True, fault = Some (ascii ''gone''), written = []\<rparr>,
          cursor_index := 2, current_lines := [[0x41]]\<rparr>)
     = Some \<lparr>is_open = True, fault = Some (ascii ''gone''), written = []\<rparr>
   \<and> is_open \<lparr>is_open = True, fault = Some (ascii ''gone''), written = []\<rparr>
   \<and> serial_write [0x08] \<lparr>is_open = True, fault = Some (ascii ''gone''), written = []\<rparr>
       = Inl (ascii ''gone'')
   \<and> send [0x08]
       (main_window_init\<lparr>ser := Some \<lparr>is_open = True, fault = Some (ascii ''gone''), written = []\<rparr>,
          cursor_index := 2, current_lines := [[0x41]]\<rparr>)
     = main_window_init\<lparr>ser := Some \<lparr>is_open = True, fault = Some (ascii ''gone''), written = []\<rparr>,
          cursor_index := 2, current_lines := [[0x41]],
          log := [ascii ''[TX ERROR] gone'']\<rparr>"
proof -
  have wr: "serial_write [0x08] \<lparr>is_open = True, fault = Some (ascii ''gone''), written = []\<rparr>
       = Inl (ascii ''gone'')"
    by (simp add: serial_write_def)
  show ?thesis
    using wr
      C9_send_failure [of
        "main_window_init\<lparr>ser := Some \<lparr>is_open = True, fault = Some (ascii ''gone''), written = []\<rparr>,
          cursor_index := 2, current_lines := [[0x41]]\<rparr>"
        "\<lparr>is_open = True, fault = Some (ascii ''gone''), written = []\<rparr>" "[0x08]" "ascii ''gone''"]
    by (simp add: main_window_init_def ascii_def)
qed

text \<open>
  C10. A disarmed framer holds no buffered bytes: this holds of a fresh framer, every
  byte-by-byte step of \<open>feed\<close> preserves it, and so does every \<open>feed\<close> call and every
  sequence of \<open>feed\<close> calls.
\<close>

theorem C10_disarmed_buffer_empty:
  "framer_inv framer_init
   \<and> (framer_inv s \<longrightarrow> framer_inv (snd (feed_byte b out s)))
   \<and> (framer_inv s \<longrightarrow> framer_inv (snd (feed chunk s)))
   \<and> framer_inv (snd (feed_chunks cs framer_init))
   \<and> (\<not> armed (snd (feed_chunks cs framer_init))
        \<longrightarrow> in_buf (snd (feed_chunks cs framer_init)) = [])"
proof -
  have i: "framer_inv framer_init"
    by (simp add: framer_inv_def framer_init_def)
  have c: "framer_inv (snd (feed_chunks cs framer_init))"
    using i by (rule feed_chunks_inv)
  have e: "\<not> armed (snd (feed_chunks cs framer_init))
      \<longrightarrow> in_buf (snd (feed_chunks cs framer_init)) = []"
    using c unfolding framer_inv_def by blast
  have b: "framer_inv s \<longrightarrow> framer_inv (snd (feed_byte b out s))"
    by (simp add: feed_byte_inv)
  have f: "framer_inv s \<longrightarrow> framer_inv (snd (feed chunk s))"
    by (simp add: feed_def feed_loop_inv)
  show ?thesis
    using i b f c e by blast
qed

theorem C10_disarmed_buffer_empty_witness:
  "framer_inv \<lparr>in_buf = [], armed = False\<rparr>
   \<and> framer_inv (snd (feed_byte 0x41 [] \<lparr>in_buf = [], armed = False\<rparr>))
   \<and> framer_inv (snd (feed [0x7E, 0x41, 0x7E, 0x42] \<lparr>in_buf = [], armed = False\<rparr>))
   \<and> \<not> armed (snd (feed_chunks [[0x7E, 0x41], [0x7E, 0x42]] framer_init))
   \<and> in_buf (snd (feed_chunks [[0x7E, 0x41], [0x7E, 0x42]] framer_init)) = []"
proof -
  have h: "framer_inv \<lparr>in_buf = [], armed = False\<rparr>"
    by (simp add: framer_inv_def)
  have d: "\<not> armed (snd (feed_chunks [[0x7E, 0x41], [0x7E, 0x42]] framer_init))"
    by (simp add: feed_def feed_byte_def framer_init_def)
  show ?thesis
    using h d
      C10_disarmed_buffer_empty [of "\<lparr>in_buf = [], armed = False\<rparr>" "0x41" "[]"
        "[0x7E, 0x41, 0x7E, 0x42]" "[[0x7E, 0x41], [0x7E, 0x42]]"]
    by simp
qed

end
